theory Spec2Isabelle
  imports Main "HOL-Library.Char_ord" "HOL-Library.List_Lexorder"
begin

section \<open>Answer extraction (extract\_answers.py)\<close>

text \<open>
  Python strings are modelled as HOL strings; a character stands for the code point of
  the same number (below 256). Values read with \<open>json.load\<close> are modelled by the
  datatype \<open>json\<close>; a loaded dictionary is an association list with distinct keys,
  read with \<open>map_of\<close>.
\<close>

datatype json =
    JNull
  | JBool bool
  | JInt int
  | JStr string
  | JArr "json list"
  | JObj "(string \<times> json) list"

text \<open>The exceptions the extraction code can raise.\<close>

datatype py_error =
    AttributeError  \<comment> \<open>\<open>.get\<close> on a value that is not a dictionary\<close>
  | TypeError       \<comment> \<open>\<open>re.search\<close> on a value that is not a string\<close>

definition newline :: char where
  "newline = CHR 0x0A"

text \<open>The class \<open>[A-E]\<close>.\<close>

definition is_label :: "char \<Rightarrow> bool" where
  "is_label c = (c \<in> set ''ABCDE'')"

text \<open>
  The class \<open>\s\<close> of a Python 3 string pattern: the characters for which
  \<open>str.isspace\<close> holds. Below 256 these are the code points 9 to 13, 28 to 32,
  133 and 160.
\<close>

definition is_space :: "char \<Rightarrow> bool" where
  "is_space c = (c \<in> {CHR 0x09, CHR 0x0A, CHR 0x0B, CHR 0x0C, CHR 0x0D,
                       CHR 0x1C, CHR 0x1D, CHR 0x1E, CHR 0x1F, CHR 0x20,
                       CHR 0x85, CHR 0xA0})"

text \<open>The class \<open>[.\s]\<close>.\<close>

definition is_dot_or_space :: "char \<Rightarrow> bool" where
  "is_dot_or_space c = (c = CHR ''.'' \<or> is_space c)"

definition open_marker :: string where
  "open_marker = ''<answer>''"

definition close_marker :: string where
  "close_marker = ''</answer>''"

text \<open>Matching a literal at the head of the text; the rest of the text is returned.\<close>

fun strip_prefix :: "string \<Rightarrow> string \<Rightarrow> string option" where
  "strip_prefix [] s = Some s"
| "strip_prefix (p # ps) [] = None"
| "strip_prefix (p # ps) (c # cs) = (if p = c then strip_prefix ps cs else None)"

text \<open>
  The tail \<open>.*?</answer>\<close> of the first pattern, matched at the head of the text: the
  closing marker after any number of characters other than a newline (the dot excludes
  the newline, since the pattern is compiled without \<open>re.DOTALL\<close>).
\<close>

fun dot_star_close :: "string \<Rightarrow> bool" where
  "dot_star_close [] = False"
| "dot_star_close (c # cs) =
     (strip_prefix close_marker (c # cs) \<noteq> None \<or> (c \<noteq> newline \<and> dot_star_close cs))"

text \<open>
  The pattern \<open><answer>([A-E])[.\s].*?</answer>\<close> matched at the head of the text; the
  result is group 1.
\<close>

definition match_with_content :: "string \<Rightarrow> char option" where
  "match_with_content s =
     (case strip_prefix open_marker s of
        Some (l # sep # rest) \<Rightarrow>
          if is_label l \<and> is_dot_or_space sep \<and> dot_star_close rest then Some l else None
      | _ \<Rightarrow> None)"

text \<open>The pattern \<open><answer>([A-E])</answer>\<close> matched at the head of the text.\<close>

definition match_bare :: "string \<Rightarrow> char option" where
  "match_bare s =
     (case strip_prefix open_marker s of
        Some (l # rest) \<Rightarrow>
          if is_label l \<and> strip_prefix close_marker rest \<noteq> None then Some l else None
      | _ \<Rightarrow> None)"

text \<open>
  \<open>re.search\<close>: the match at the leftmost start position at which the pattern matches,
  the end of the text included among the start positions.
\<close>

fun re_search :: "(string \<Rightarrow> 'a option) \<Rightarrow> string \<Rightarrow> 'a option" where
  "re_search m [] = m []"
| "re_search m (c # cs) =
     (case m (c # cs) of Some g \<Rightarrow> Some g | None \<Rightarrow> re_search m cs)"

text \<open>The body of \<open>extract_answer_from_json\<close> once \<open>answer_text\<close> is a string.\<close>

definition extract_text :: "string \<Rightarrow> char option" where
  "extract_text answer_text =
     (case re_search match_with_content answer_text of
        Some l \<Rightarrow> Some l
      | None \<Rightarrow>
          (case re_search match_bare answer_text of
             Some l \<Rightarrow> Some l
           | None \<Rightarrow> None))"

text \<open>
  \<open>extract_answer_from_json\<close>: \<open>json_content.get('answer', '')\<close> raises on a value
  that is not a dictionary, and \<open>re.search\<close> raises on an answer that is not a string.
\<close>

fun extract_answer_from_json :: "json \<Rightarrow> py_error + char option" where
  "extract_answer_from_json (JObj d) =
     (case map_of d ''answer'' of
        None \<Rightarrow> Inr (extract_text [])
      | Some (JStr answer_text) \<Rightarrow> Inr (extract_text answer_text)
      | Some _ \<Rightarrow> Inl TypeError)"
| "extract_answer_from_json _ = Inl AttributeError"

section \<open>Gap detection (process\_files in extract\_answers.py)\<close>

text \<open>
  Python's \<open>int\<close> on a string, \<open>None\<close> standing for \<open>ValueError\<close>: white space is
  stripped at both ends (below 256 the code points 9 to 13, 32, 133 and 160), an optional
  sign follows, then decimal digits, where single underscores may separate digits.
\<close>

definition is_int_space :: "char \<Rightarrow> bool" where
  "is_int_space c = (c \<in> {CHR 0x09, CHR 0x0A, CHR 0x0B, CHR 0x0C, CHR 0x0D, CHR 0x20,
                           CHR 0x85, CHR 0xA0})"

definition is_digit :: "char \<Rightarrow> bool" where
  "is_digit c = (c \<in> set ''0123456789'')"

definition digit_val :: "char \<Rightarrow> nat" where
  "digit_val c = of_char c - 48"

definition strip_space :: "string \<Rightarrow> string" where
  "strip_space s = rev (dropWhile is_int_space (rev (dropWhile is_int_space s)))"

fun parse_digits :: "nat \<Rightarrow> bool \<Rightarrow> string \<Rightarrow> nat option" where
  "parse_digits acc prev [] = (if prev then Some acc else None)"
| "parse_digits acc prev (c # cs) =
     (if is_digit c then parse_digits (acc * 10 + digit_val c) True cs
      else if c = CHR ''_'' \<and> prev then parse_digits acc False cs
      else None)"

definition py_int :: "string \<Rightarrow> int option" where
  "py_int s =
     (case strip_space s of
        [] \<Rightarrow> None
      | c # cs \<Rightarrow>
          if c = CHR ''+'' then map_option int (parse_digits 0 False cs)
          else if c = CHR ''-'' then map_option (\<lambda>n. - int n) (parse_digits 0 False cs)
          else map_option int (parse_digits 0 False (c # cs)))"

text \<open>
  A file of the folder as the loop meets it: its name, and what opening it and
  \<open>json.load\<close> give, either an exception or the loaded value.
\<close>

datatype file_content = ReadFails | Loaded json

type_synonym json_file = "string \<times> file_content"

text \<open>The lines the function prints.\<close>

datatype message =
    NoAnswerFound string      \<comment> \<open>\<open>Warning: No answer found in {json_file}\<close>\<close>
  | ErrorProcessing string    \<comment> \<open>\<open>Error processing {json_file}: ...\<close>\<close>
  | InvalidIdFormat string    \<comment> \<open>\<open>Warning: Invalid ID format in filename {json_file}\<close>\<close>
  | MissingAnswers "int list" \<comment> \<open>\<open>Warning: Missing answers for IDs: [...]\<close>\<close>
  | ResultsWritten            \<comment> \<open>\<open>Results written to answers.csv\<close>\<close>
  | ProcessedFiles nat        \<comment> \<open>\<open>Processed {len(results)} files\<close>\<close>

text \<open>The variables the loop over the files updates, with the lines printed so far.\<close>

record scan_state =
  results :: "(string \<times> char) list"
  processed_ids :: "int set"
  printed :: "message list"

text \<open>\<open>json_file.name.split('_')[0]\<close>\<close>

definition file_id_of :: "string \<Rightarrow> string" where
  "file_id_of name = takeWhile (\<lambda>c. c \<noteq> CHR ''_'') name"

text \<open>
  One iteration of the loop. The inner \<open>except Exception\<close> catches the failure of
  reading the file and both exceptions of the extraction; the outer \<open>except ValueError\<close>
  catches the failure of \<open>int\<close>. An identifier outside 1 to 251 falls through the
  \<open>if\<close>, which has no \<open>else\<close>.
\<close>

definition scan_file :: "scan_state \<Rightarrow> json_file \<Rightarrow> scan_state" where
  "scan_file st f =
     (let name = fst f; file_id = file_id_of name in
      case py_int file_id of
        None \<Rightarrow> st\<lparr>printed := printed st @ [InvalidIdFormat name]\<rparr>
      | Some id_num \<Rightarrow>
          if 1 \<le> id_num \<and> id_num \<le> 251 then
            (case snd f of
               ReadFails \<Rightarrow> st\<lparr>printed := printed st @ [ErrorProcessing name]\<rparr>
             | Loaded json_content \<Rightarrow>
                 (case extract_answer_from_json json_content of
                    Inl e \<Rightarrow> st\<lparr>printed := printed st @ [ErrorProcessing name]\<rparr>
                  | Inr (Some answer) \<Rightarrow>
                      st\<lparr>results := results st @ [(file_id, answer)],
                         processed_ids := insert id_num (processed_ids st)\<rparr>
                  | Inr None \<Rightarrow> st\<lparr>printed := printed st @ [NoAnswerFound name]\<rparr>))
          else st)"

text \<open>
  What a run of \<open>process_files\<close> leaves: the rows written to the CSV file under the
  header, the set \<open>processed_ids\<close>, the set \<open>missing_ids\<close> and the printed lines.
\<close>

record report =
  csv_rows :: "(string \<times> char) list"
  success_ids :: "int set"
  missing_ids :: "int set"
  printed_lines :: "message list"

text \<open>
  \<open>process_files\<close>, applied to the sorted list of the folder's \<open>*.json\<close> files. The rows
  are sorted by the identifier string, a stable sort as Python's.
\<close>

definition process_files :: "json_file list \<Rightarrow> report" where
  "process_files json_files =
     (let st = foldl scan_file \<lparr>results = [], processed_ids = {}, printed = []\<rparr> json_files;
          rows = sort_key fst (results st);
          all_expected_ids = {1..251};
          missing = all_expected_ids - processed_ids st
      in \<lparr>csv_rows = rows,
          success_ids = processed_ids st,
          missing_ids = missing,
          printed_lines = printed st
            @ (if missing \<noteq> {} then [MissingAnswers (sorted_list_of_set missing)] else [])
            @ [ResultsWritten, ProcessedFiles (length rows)]\<rparr>)"

text \<open>
  The number of a file, and whether reading it and extracting give a label; the rows and
  the lines that one iteration of the loop adds for a file.
\<close>

definition file_number :: "json_file \<Rightarrow> int option" where
  "file_number f = py_int (file_id_of (fst f))"

definition has_label :: "json_file \<Rightarrow> bool" where
  "has_label f =
     (case snd f of
        ReadFails \<Rightarrow> False
      | Loaded json_content \<Rightarrow>
          (case extract_answer_from_json json_content of
             Inr (Some l) \<Rightarrow> True
           | _ \<Rightarrow> False))"

definition no_files :: scan_state where
  "no_files = \<lparr>results = [], processed_ids = {}, printed = []\<rparr>"

definition file_lines :: "json_file \<Rightarrow> message list" where
  "file_lines f = printed (scan_file no_files f)"

definition file_rows :: "json_file \<Rightarrow> (string \<times> char) list" where
  "file_rows f = results (scan_file no_files f)"

section \<open>Attempt sampling (three\_times.py)\<close>

text \<open>
  The dictionaries the processors return have string values; they are association lists
  in insertion order, and \<open>result.get(k)\<close> is \<open>map_of result k\<close>.
\<close>

type_synonym dict = "(string \<times> string) list"

text \<open>
  The outcome of \<open>client.chat.completions.create\<close> followed by the reading of
  \<open>choices[0]\<close>: the message content with the finish reason, or an exception with
  its text \<open>str(e)\<close>.
\<close>

datatype api_outcome = Completion string string | ApiException string

text \<open>
  What one call of a processor meets outside the program: the frame files found for a
  video id, the result of reading and encoding a frame file (\<open>Inl\<close> the text of the
  exception), and the endpoint's outcome for the request made of the prompt for a
  question and of the image URLs. The wording of the prompt
  (\<open>create_prompt\<close>) is not modelled.
\<close>

record call_env =
  frame_paths :: "string \<Rightarrow> string list"
  encode_image :: "string \<Rightarrow> string + string"
  chat_completion :: "string \<Rightarrow> string list \<Rightarrow> api_outcome"

text \<open>The loop that encodes each frame and appends its data URL; an exception ends it.\<close>

fun encode_frames :: "(string \<Rightarrow> string + string) \<Rightarrow> string list \<Rightarrow> string + string list" where
  "encode_frames enc [] = Inr []"
| "encode_frames enc (path # paths) =
     (case enc path of
        Inl e \<Rightarrow> Inl e
      | Inr base64_image \<Rightarrow>
          (case encode_frames enc paths of
             Inl e \<Rightarrow> Inl e
           | Inr urls \<Rightarrow> Inr ((''data:image/jpeg;base64,'' @ base64_image) # urls)))"


text \<open>The entry of one attempt in the stored result, and the stored result of a question.\<close>

record attempt =
  attempt_number :: int
  answer :: "string option"
  finish_reason :: "string option"
  error :: "string option"

record combined_result =
  video_id :: string
  attempts :: "attempt list"

datatype run_error = IndexError | KeyError


definition attempt_data :: "nat \<times> dict \<Rightarrow> attempt" where
  "attempt_data ir =
     \<lparr>attempt_number = int (fst ir),
      answer = map_of (snd ir) ''answer'',
      finish_reason = map_of (snd ir) ''finish_reason'',
      error = map_of (snd ir) ''error''\<rparr>"

text \<open>
  The combination of the gathered results: \<open>question_results[0]['video_id']\<close>, then one
  entry for each result of \<open>enumerate(question_results, 1)\<close>.
\<close>

definition combine :: "dict list \<Rightarrow> run_error + combined_result" where
  "combine rs =
     (case rs of
        [] \<Rightarrow> Inl IndexError
      | r # _ \<Rightarrow>
          (case map_of r ''video_id'' of
             None \<Rightarrow> Inl KeyError
           | Some vid \<Rightarrow>
               Inr \<lparr>video_id = vid, attempts = map attempt_data (enumerate 1 rs)\<rparr>))"



section \<open>Consensus reasoning over attempts (three\_times\_preview.py)\<close>

text \<open>\<open>str\<close> of an integer, as an f-string renders it.\<close>

definition digit_char :: "nat \<Rightarrow> char" where
  "digit_char n = ''0123456789'' ! n"

fun str_nat :: "nat \<Rightarrow> string" where
  "str_nat n = (if n < 10 then [digit_char n] else str_nat (n div 10) @ [digit_char (n mod 10)])"

declare str_nat.simps [simp del]

definition str_int :: "int \<Rightarrow> string" where
  "str_int i = (if i < 0 then CHR ''-'' # str_nat (nat (- i)) else str_nat (nat i))"

text \<open>An f-string renders a string as it is and \<open>None\<close> as the word \<open>None\<close>.\<close>

definition str_opt :: "string option \<Rightarrow> string" where
  "str_opt v = (case v of None \<Rightarrow> ''None'' | Some s \<Rightarrow> s)"

text \<open>The loop that builds \<open>formatted_attempts\<close>.\<close>

definition formatted_attempts :: "attempt list \<Rightarrow> string" where
  "formatted_attempts atts =
     foldl (\<lambda>acc attempt. acc @ ''\<newline>Attempt '' @ str_int (attempt_number attempt)
                                @ '':\<newline>'' @ str_opt (answer attempt) @ ''\<newline>'')
       [] atts"

definition attempts_prompt_tail :: string where
  "attempts_prompt_tail =
     ''\<newline>'' @
     ''            \<newline>'' @
     ''Your task is to:\<newline>'' @
     ''1. Carefully review all three reasoning attempts\<newline>'' @
     ''2. Aggregate and compare the frame-by-frame observations across all attempts\<newline>'' @
     ''3. Consider any unique details or perspectives provided by each attempt\<newline>'' @
     ''4. Evaluate the strength and completeness of reasoning in each attempt\<newline>'' @
     ''5. Assess the validity of each attempt's conclusions given their observations\<newline>'' @
     ''\<newline>'' @
     ''Then:\<newline>'' @
     ''1. Using the combined observations and analysis from all attempts, determine the most accurate answer. You can either:\<newline>'' @
     ''   a) Select one of the existing answers if you agree with its reasoning and conclusion\<newline>'' @
     ''   b) Form your own conclusion if you believe the combined observations support a different answer\<newline>'' @
     ''2. Output your chosen answer in <answer></answer> tags\<newline>'' @
     ''3. Follow this with a brief explanation in <explanation></explanation> tags that:\<newline>'' @
     ''   - If choosing an existing answer: Explain why this attempt's reasoning was most compelling\<newline>'' @
     ''   - If choosing your own answer: Explain how the combined observations from multiple attempts support your conclusion\<newline>'' @
     ''\<newline>'' @
     ''Note: \<newline>'' @
     ''- You have access to all observations and details mentioned across all three attempts\<newline>'' @
     ''- Feel free to combine strong reasoning points from multiple attempts\<newline>'' @
     ''- Focus on connecting concrete observations to logical conclusions\<newline>'' @
     ''- Don't feel constrained by the existing answers if the combined evidence suggests a different conclusion\<newline>''"

text \<open>\<open>content_prompt\<close> of \<open>reason_over_attempts\<close>.\<close>

definition attempts_prompt :: "string \<Rightarrow> attempt list \<Rightarrow> string" where
  "attempts_prompt question atts =
     ''Here is the multiple choice question that was posed:\<newline>'' @ question @
     ''\<newline>'' @
     ''\<newline>'' @
     ''I have received three different reasoning attempts from a vision model analyzing the same video frames:\<newline>'' @
     formatted_attempts atts @ attempts_prompt_tail"

text \<open>
  The end of both reasoning functions: the request with the prompt, and the dictionary
  returned for its outcome.
\<close>

definition reasoning_result :: "string \<Rightarrow> api_outcome \<Rightarrow> dict" where
  "reasoning_result vid outcome =
     (case outcome of
        Completion a f \<Rightarrow> [(''video_id'', vid), (''answer'', a), (''finish_reason'', f)]
      | ApiException e \<Rightarrow> [(''video_id'', vid), (''error'', e)])"

text \<open>
  \<open>reason_over_attempts\<close>, given the endpoint's outcome for a prompt: the request made
  (the video id it is made for, and the prompt sent) and the dictionary returned.
\<close>

definition reason_over_attempts ::
  "(string \<Rightarrow> api_outcome) \<Rightarrow> attempt list \<Rightarrow> string \<Rightarrow> string
     \<Rightarrow> (string \<times> string) \<times> dict" where
  "reason_over_attempts client atts question vid =
     (let content_prompt = attempts_prompt question atts
      in ((vid, content_prompt), reasoning_result vid (client content_prompt)))"








section \<open>Reasoning over one description (reasoner.py)\<close>








section \<open>Backfill of chosen video ids (fill\_gaps.py)\<close>

text \<open>What a run does outside the program, in order.\<close>

datatype event =
    EvidenceLoaded string         \<comment> \<open>the frames of a video id are listed and read\<close>
  | RemoteCall string             \<comment> \<open>a request is sent for a video id\<close>
  | ResultWritten string dict     \<comment> \<open>the result file of a video id is written\<close>

fun event_id :: "event \<Rightarrow> string" where
  "event_id (EvidenceLoaded vid) = vid"
| "event_id (RemoteCall vid) = vid"
| "event_id (ResultWritten vid r) = vid"

text \<open>The test \<open>ids is not None and video_id not in ids\<close>.\<close>

definition filtered_out :: "string set option \<Rightarrow> string \<Rightarrow> bool" where
  "filtered_out ids vid = (case ids of None \<Rightarrow> False | Some allowed \<Rightarrow> vid \<notin> allowed)"

text \<open>
  \<open>GPT4VProcessor.process_question\<close>, with the filter \<open>self.video_ids\<close>: the dictionary
  returned and the events of the call.
\<close>

definition gap_process_question ::
  "call_env \<Rightarrow> string set option \<Rightarrow> string \<Rightarrow> string \<Rightarrow> dict \<times> event list" where
  "gap_process_question env video_ids vid question =
     (if filtered_out video_ids vid then ([], [])
      else if frame_paths env vid = [] then
        ([(''error'', ''No frames found for video ID '' @ vid)], [EvidenceLoaded vid])
      else
        (case encode_frames (encode_image env) (frame_paths env vid) of
           Inl e \<Rightarrow> ([(''error'', e)], [EvidenceLoaded vid])
         | Inr urls \<Rightarrow>
             (case chat_completion env question urls of
                Completion a f \<Rightarrow>
                  ([(''answer'', a), (''finish_reason'', f)], [EvidenceLoaded vid, RemoteCall vid])
              | ApiException e \<Rightarrow>
                  ([(''error'', e)], [EvidenceLoaded vid, RemoteCall vid]))))"

text \<open>
  The loop of \<open>main\<close> over the rows, with the set \<open>video_ids_to_process\<close> (in the source
  the set of the one id 00023), which is also the filter of the processor. Row \<open>n\<close>
  meets the environment \<open>envs n\<close>. An empty dictionary is not written.
\<close>

fun fill_gaps_main ::
  "(nat \<Rightarrow> call_env) \<Rightarrow> string set option \<Rightarrow> nat \<Rightarrow> (string \<times> string) list \<Rightarrow> event list" where
  "fill_gaps_main envs video_ids_to_process n [] = []"
| "fill_gaps_main envs video_ids_to_process n (row # rows) =
     (if filtered_out video_ids_to_process (fst row) then
        fill_gaps_main envs video_ids_to_process (Suc n) rows
      else
        (let (result, events) =
               gap_process_question (envs n) video_ids_to_process (fst row) (snd row)
         in events
            @ (if result \<noteq> [] then [ResultWritten (fst row) result] else [])
            @ fill_gaps_main envs video_ids_to_process (Suc n) rows))"

section \<open>The bounded dispatcher (the semaphore of the asynchronous processors)\<close>

text \<open>
  Every asynchronous processor creates one \<open>Semaphore(max_concurrent_requests)\<close> and
  every task runs its body under \<open>async with self.semaphore\<close>. A task waits for the
  semaphore, holds it while it prepares the request, has its request in flight, and is
  finished once it has left the block. The semaphore is the counter of
  \<open>asyncio.Semaphore\<close>: acquiring needs a positive value and decrements it, leaving the
  block increments it.
\<close>

datatype phase = Waiting | Holding | InFlight | Finished

record dispatcher =
  sem_value :: nat
  phases :: "phase list"

definition init_dispatcher :: "nat \<Rightarrow> nat \<Rightarrow> dispatcher" where
  "init_dispatcher max_concurrent_requests n =
     \<lparr>sem_value = max_concurrent_requests, phases = replicate n Waiting\<rparr>"

text \<open>
  One step of one task \<open>i\<close>: entering the block, sending the request, leaving the block
  on an exception raised before the request, and leaving it when the request has
  completed or failed.
\<close>

inductive step :: "dispatcher \<Rightarrow> dispatcher \<Rightarrow> bool" where
  acquire: "i < length (phases s) \<Longrightarrow> phases s ! i = Waiting \<Longrightarrow> 0 < sem_value s \<Longrightarrow>
     step s (s\<lparr>sem_value := sem_value s - 1, phases := (phases s)[i := Holding]\<rparr>)"
| send: "i < length (phases s) \<Longrightarrow> phases s ! i = Holding \<Longrightarrow>
     step s (s\<lparr>phases := (phases s)[i := InFlight]\<rparr>)"
| abandon: "i < length (phases s) \<Longrightarrow> phases s ! i = Holding \<Longrightarrow>
     step s (s\<lparr>sem_value := sem_value s + 1, phases := (phases s)[i := Finished]\<rparr>)"
| complete: "i < length (phases s) \<Longrightarrow> phases s ! i = InFlight \<Longrightarrow>
     step s (s\<lparr>sem_value := sem_value s + 1, phases := (phases s)[i := Finished]\<rparr>)"

text \<open>The states of the executions that start with \<open>n\<close> submitted tasks.\<close>

inductive reachable :: "nat \<Rightarrow> nat \<Rightarrow> dispatcher \<Rightarrow> bool" where
  start: "reachable k n (init_dispatcher k n)"
| next_step: "reachable k n s \<Longrightarrow> step s s' \<Longrightarrow> reachable k n s'"

definition in_flight :: "dispatcher \<Rightarrow> nat" where
  "in_flight s = length (filter (\<lambda>p. p = InFlight) (phases s))"

text \<open>The tasks that hold the semaphore: inside the block, before or during the request.\<close>

definition holders :: "dispatcher \<Rightarrow> nat" where
  "holders s = length (filter (\<lambda>p. p = Holding \<or> p = InFlight) (phases s))"

section \<open>Properties of the answer extraction\<close>

lemma strip_prefix_iff: "strip_prefix p s = Some r \<longleftrightarrow> s = p @ r"
  by (induction p s rule: strip_prefix.induct) auto

lemma strip_prefix_append: "strip_prefix p (p @ r) = Some r"
  by (simp add: strip_prefix_iff)

lemma strip_prefix_neq_None: "strip_prefix p s \<noteq> None \<longleftrightarrow> (\<exists>r. s = p @ r)"
  using strip_prefix_iff [of p s] by (cases "strip_prefix p s") auto

lemma dot_star_close_D:
  "dot_star_close s \<Longrightarrow> \<exists>a b. s = a @ close_marker @ b \<and> newline \<notin> set a"
proof (induction s)
  case Nil
  then show ?case by simp
next
  case (Cons c cs)
  show ?case
  proof (cases "strip_prefix close_marker (c # cs) \<noteq> None")
    case True
    then obtain r where "c # cs = close_marker @ r"
      using strip_prefix_neq_None [of close_marker "c # cs"] by blast
    then have "c # cs = [] @ close_marker @ r \<and> newline \<notin> set []" by simp
    then show ?thesis by blast
  next
    case False
    with Cons.prems have c: "c \<noteq> newline" and "dot_star_close cs" by auto
    with Cons.IH obtain a b where "cs = a @ close_marker @ b" "newline \<notin> set a" by blast
    with c have "c # cs = (c # a) @ close_marker @ b \<and> newline \<notin> set (c # a)" by simp
    then show ?thesis by blast
  qed
qed

lemma close_marker_Cons: "\<exists>c cs. close_marker @ b = c # cs"
  by (simp add: close_marker_def)

lemma dot_star_close_I: "newline \<notin> set a \<Longrightarrow> dot_star_close (a @ close_marker @ b)"
proof (induction a)
  case Nil
  obtain c cs where e: "close_marker @ b = c # cs" using close_marker_Cons by blast
  have "strip_prefix close_marker (c # cs) \<noteq> None"
    unfolding e [symmetric] by (simp add: strip_prefix_append)
  then show ?case using e by simp
next
  case (Cons x a)
  then show ?case by auto
qed

lemma re_search_Some_D: "re_search m s = Some l \<Longrightarrow> \<exists>pre t. s = pre @ t \<and> m t = Some l"
proof (induction s)
  case Nil
  then show ?case by simp
next
  case (Cons c cs)
  show ?case
  proof (cases "m (c # cs)")
    case None
    with Cons.prems have "re_search m cs = Some l" by simp
    with Cons.IH obtain pre t where "cs = pre @ t" "m t = Some l" by blast
    then have "c # cs = (c # pre) @ t \<and> m t = Some l" by simp
    then show ?thesis by blast
  next
    case (Some g)
    with Cons.prems have "c # cs = [] @ (c # cs) \<and> m (c # cs) = Some l" by simp
    then show ?thesis by blast
  qed
qed

lemma re_search_leftmost:
  "m t = Some l \<Longrightarrow> (\<forall>i<length pre. m (drop i (pre @ t)) = None) \<Longrightarrow>
   re_search m (pre @ t) = Some l"
proof (induction pre)
  case Nil
  then show ?case by (cases t) simp_all
next
  case (Cons c pre)
  from Cons.prems(2) have h: "m (drop 0 ((c # pre) @ t)) = None" by blast
  have "\<forall>i<length pre. m (drop i (pre @ t)) = None"
  proof (intro allI impI)
    fix i assume "i < length pre"
    then have "Suc i < length (c # pre)" by simp
    with Cons.prems(2) have "m (drop (Suc i) ((c # pre) @ t)) = None" by blast
    then show "m (drop i (pre @ t)) = None" by simp
  qed
  with Cons.IH Cons.prems(1) have "re_search m (pre @ t) = Some l" by blast
  with h show ?case by simp
qed

lemma re_search_None_iff: "re_search m s = None \<longleftrightarrow> (\<forall>i\<le>length s. m (drop i s) = None)"
proof (induction s)
  case Nil
  then show ?case by simp
next
  case (Cons c cs)
  have "(\<forall>i\<le>length (c # cs). m (drop i (c # cs)) = None) \<longleftrightarrow>
        m (c # cs) = None \<and> (\<forall>i\<le>length cs. m (drop i cs) = None)"
    (is "?L \<longleftrightarrow> ?R")
  proof
    assume l: ?L
    then have "m (drop 0 (c # cs)) = None" by blast
    moreover have "\<forall>i\<le>length cs. m (drop i cs) = None"
    proof (intro allI impI)
      fix i assume "i \<le> length cs"
      then have "Suc i \<le> length (c # cs)" by simp
      with l have "m (drop (Suc i) (c # cs)) = None" by blast
      then show "m (drop i cs) = None" by simp
    qed
    ultimately show ?R by simp
  next
    assume r: ?R
    show ?L
    proof (intro allI impI)
      fix i assume "i \<le> length (c # cs)"
      then show "m (drop i (c # cs)) = None" using r by (cases i) auto
    qed
  qed
  with Cons.IH show ?case by (auto split: option.splits)
qed

lemma match_with_content_D:
  assumes "match_with_content t = Some l"
  shows "is_label l \<and> (\<exists>sep a b. t = open_marker @ l # sep # a @ close_marker @ b \<and>
      is_dot_or_space sep \<and> newline \<notin> set a)"
proof -
  from assms obtain l' sep rest where
    sp: "strip_prefix open_marker t = Some (l' # sep # rest)" and
    c: "is_label l' \<and> is_dot_or_space sep \<and> dot_star_close rest" and l: "l' = l"
    unfolding match_with_content_def
    by (auto split: option.splits list.splits if_splits)
  from c obtain a b where r: "rest = a @ close_marker @ b" "newline \<notin> set a"
    using dot_star_close_D by blast
  from sp have "t = open_marker @ l' # sep # rest" by (simp add: strip_prefix_iff)
  with r c l show ?thesis by blast
qed

lemma match_with_content_I:
  "is_label l \<Longrightarrow> is_dot_or_space sep \<Longrightarrow> newline \<notin> set a \<Longrightarrow>
   match_with_content (open_marker @ l # sep # a @ close_marker @ b) = Some l"
  unfolding match_with_content_def
  by (simp add: strip_prefix_append dot_star_close_I)

lemma match_bare_iff:
  "match_bare t = Some l \<longleftrightarrow> is_label l \<and> (\<exists>b. t = open_marker @ l # close_marker @ b)"
proof
  assume "match_bare t = Some l"
  then obtain l' rest where
    sp: "strip_prefix open_marker t = Some (l' # rest)" and
    c: "is_label l'" "strip_prefix close_marker rest \<noteq> None" and l: "l' = l"
    unfolding match_bare_def
    by (auto split: option.splits list.splits if_splits)
  from c(2) obtain b where "rest = close_marker @ b"
    using strip_prefix_neq_None [of close_marker rest] by blast
  moreover from sp have "t = open_marker @ l' # rest" by (simp add: strip_prefix_iff)
  ultimately show "is_label l \<and> (\<exists>b. t = open_marker @ l # close_marker @ b)"
    using c(1) l by blast
next
  assume "is_label l \<and> (\<exists>b. t = open_marker @ l # close_marker @ b)"
  then obtain b where t: "t = open_marker @ l # close_marker @ b" and l: "is_label l" by blast
  show "match_bare t = Some l"
    unfolding match_bare_def t using l by (simp add: strip_prefix_append)
qed


lemma re_search_is_label:
  assumes "re_search match_with_content s = Some l \<or> re_search match_bare s = Some l"
  shows "is_label l"
  using assms re_search_Some_D [of match_with_content s l] re_search_Some_D [of match_bare s l]
    match_with_content_D match_bare_iff by blast

lemma extract_text_is_label: "extract_text s = Some l \<Longrightarrow> is_label l"
  unfolding extract_text_def
  by (auto split: option.splits intro: re_search_is_label)

lemma extract_text_marker_pair:
  assumes "extract_text s = Some l"
  shows "\<exists>pre mid post. s = pre @ open_marker @ mid @ close_marker @ post"
proof -
  from assms have "re_search match_with_content s = Some l \<or> re_search match_bare s = Some l"
    unfolding extract_text_def by (auto split: option.splits)
  then show ?thesis
  proof
    assume a: "re_search match_with_content s = Some l"
    from re_search_Some_D [OF a] obtain pre t where
      s: "s = pre @ t" and m: "match_with_content t = Some l" by blast
    from match_with_content_D [OF m] obtain sep a b where
      "t = open_marker @ l # sep # a @ close_marker @ b" by blast
    with s have "s = pre @ open_marker @ (l # sep # a) @ close_marker @ b" by simp
    then show ?thesis by (intro exI)
  next
    assume a: "re_search match_bare s = Some l"
    from re_search_Some_D [OF a] obtain pre t where
      s: "s = pre @ t" and m: "match_bare t = Some l" by blast
    from m obtain b where "t = open_marker @ l # close_marker @ b"
      unfolding match_bare_iff by blast
    with s have "s = pre @ open_marker @ [l] @ close_marker @ b" by simp
    then show ?thesis by (intro exI)
  qed
qed

lemmas extract_eval = extract_text_def match_with_content_def match_bare_def
  open_marker_def close_marker_def is_label_def is_dot_or_space_def is_space_def newline_def

text \<open>
  Claim C1. Applied to a record whose \<open>answer\<close> field is a string, the extractor
  returns C for \<open><answer>C</answer>\<close> and for
  \<open><answer>C. because of the stop sign</answer>\<close>, returns absent for a text without
  an answer-tag pair (\<open>no tags here\<close> is one) and for \<open><answer>F</answer>\<close>; it never
  raises, and its result is absent or one of A, B, C, D, E.
\<close>

theorem extract_answer_examples:
  assumes "map_of d ''answer'' = Some (JStr s)"
  shows "extract_answer_from_json (JObj [(''answer'', JStr ''<answer>C</answer>'')])
           = Inr (Some CHR ''C'')
       \<and> extract_answer_from_json
             (JObj [(''answer'', JStr ''<answer>C. because of the stop sign</answer>'')])
           = Inr (Some CHR ''C'')
       \<and> extract_answer_from_json (JObj [(''answer'', JStr ''no tags here'')]) = Inr None
       \<and> extract_answer_from_json (JObj [(''answer'', JStr ''<answer>F</answer>'')]) = Inr None
       \<and> ((\<nexists>pre mid post. s = pre @ ''<answer>'' @ mid @ ''</answer>'' @ post)
            \<longrightarrow> extract_answer_from_json (JObj d) = Inr None)
       \<and> (\<exists>r. extract_answer_from_json (JObj d) = Inr r
              \<and> (r = None \<or> r \<in> Some ` {CHR ''A'', CHR ''B'', CHR ''C'', CHR ''D'', CHR ''E''}))"
proof -
  have e: "extract_answer_from_json (JObj d) = Inr (extract_text s)"
    using assms by simp
  have 1: "extract_answer_from_json (JObj [(''answer'', JStr ''<answer>C</answer>'')])
           = Inr (Some CHR ''C'')"
    by (simp add: extract_eval)
  have 2: "extract_answer_from_json
             (JObj [(''answer'', JStr ''<answer>C. because of the stop sign</answer>'')])
           = Inr (Some CHR ''C'')"
    by (simp add: extract_eval)
  have 3: "extract_answer_from_json (JObj [(''answer'', JStr ''no tags here'')]) = Inr None"
    by (simp add: extract_eval)
  have 4: "extract_answer_from_json (JObj [(''answer'', JStr ''<answer>F</answer>'')]) = Inr None"
    by (simp add: extract_eval)
  have 5: "(\<nexists>pre mid post. s = pre @ ''<answer>'' @ mid @ ''</answer>'' @ post)
            \<longrightarrow> extract_answer_from_json (JObj d) = Inr None"
  proof
    assume n: "\<nexists>pre mid post. s = pre @ ''<answer>'' @ mid @ ''</answer>'' @ post"
    have "extract_text s = None"
    proof (cases "extract_text s")
      case None
      then show ?thesis .
    next
      case (Some l)
      have "\<exists>pre mid post. s = pre @ ''<answer>'' @ mid @ ''</answer>'' @ post"
        using extract_text_marker_pair [OF Some, unfolded open_marker_def close_marker_def] .
      with n show ?thesis by blast
    qed
    with e show "extract_answer_from_json (JObj d) = Inr None" by simp
  qed
  have 6: "\<exists>r. extract_answer_from_json (JObj d) = Inr r
              \<and> (r = None \<or> r \<in> Some ` {CHR ''A'', CHR ''B'', CHR ''C'', CHR ''D'', CHR ''E''})"
  proof (cases "extract_text s")
    case None
    with e show ?thesis by simp
  next
    case (Some l)
    then have "is_label l" by (rule extract_text_is_label)
    then have "l \<in> {CHR ''A'', CHR ''B'', CHR ''C'', CHR ''D'', CHR ''E''}"
      by (simp add: is_label_def)
    with e Some show ?thesis by simp
  qed
  show ?thesis
    by (rule conjI [OF 1 conjI [OF 2 conjI [OF 3 conjI [OF 4 conjI [OF 5 6]]]]])
qed

theorem extract_answer_examples_witness:
  "map_of [(''finish_reason'', JStr ''stop''), (''answer'', JStr ''I pick <answer>B</answer>'')]
      ''answer'' = Some (JStr ''I pick <answer>B</answer>'')
   \<and> extract_answer_from_json
        (JObj [(''finish_reason'', JStr ''stop''), (''answer'', JStr ''I pick <answer>B</answer>'')])
      = Inr (Some CHR ''B'')
   \<and> (\<exists>r. extract_answer_from_json
        (JObj [(''finish_reason'', JStr ''stop''), (''answer'', JStr ''I pick <answer>B</answer>'')])
          = Inr r
        \<and> (r = None \<or> r \<in> Some ` {CHR ''A'', CHR ''B'', CHR ''C'', CHR ''D'', CHR ''E''}))"
proof -
  have h: "map_of [(''finish_reason'', JStr ''stop''), (''answer'', JStr ''I pick <answer>B</answer>'')]
      ''answer'' = Some (JStr ''I pick <answer>B</answer>'')" by simp
  have v: "extract_answer_from_json
        (JObj [(''finish_reason'', JStr ''stop''), (''answer'', JStr ''I pick <answer>B</answer>'')])
      = Inr (Some CHR ''B'')"
    by (simp add: extract_eval)
  note t = extract_answer_examples [OF h]
  have r: "\<exists>r. extract_answer_from_json
        (JObj [(''finish_reason'', JStr ''stop''), (''answer'', JStr ''I pick <answer>B</answer>'')])
          = Inr r
        \<and> (r = None \<or> r \<in> Some ` {CHR ''A'', CHR ''B'', CHR ''C'', CHR ''D'', CHR ''E''})"
    by (rule conjunct2 [OF conjunct2 [OF conjunct2 [OF conjunct2 [OF conjunct2 [OF t]]]]])
  show ?thesis by (rule conjI [OF h conjI [OF v r]])
qed

lemma re_search_head: "m s = Some l \<Longrightarrow> re_search m s = Some l"
  by (cases s) simp_all

lemma label_cases:
  "is_label l \<Longrightarrow> l = CHR ''A'' \<or> l = CHR ''B'' \<or> l = CHR ''C'' \<or> l = CHR ''D'' \<or> l = CHR ''E''"
  by (simp add: is_label_def)

lemma with_content_skips_bare_pair:
  assumes "is_label l"
  shows "re_search match_with_content (open_marker @ l # close_marker @ post)
           = re_search match_with_content post"
  using label_cases [OF assms]
  by (elim disjE)
     (simp_all add: match_with_content_def open_marker_def close_marker_def
        is_dot_or_space_def is_space_def)

text \<open>
  Claim C3, as amended. The extractor accepts the bare label alone inside the marker
  pair, and the label followed by a full stop or a white-space character and then any
  text without a line break before the closing marker. The form with trailing text is
  searched first over the whole text, where its leftmost match wins; the leftmost bare
  pair is returned only when that form matches nowhere.
\<close>

theorem extract_forms_and_priority:
  assumes "is_label l"
  shows "(is_dot_or_space sep \<and> newline \<notin> set trailing \<longrightarrow>
            extract_text (open_marker @ l # sep # trailing @ close_marker @ post) = Some l)
       \<and> extract_text (open_marker @ l # close_marker @ post)
            = (case re_search match_with_content post of Some l' \<Rightarrow> Some l' | None \<Rightarrow> Some l)
       \<and> (match_with_content t = Some l
            \<and> (\<forall>i<length pre. match_with_content (drop i (pre @ t)) = None)
            \<longrightarrow> extract_text (pre @ t) = Some l)
       \<and> (match_bare t = Some l
            \<and> (\<forall>i<length pre. match_bare (drop i (pre @ t)) = None)
            \<and> re_search match_with_content (pre @ t) = None
            \<longrightarrow> extract_text (pre @ t) = Some l)"
proof -
  have 1: "is_dot_or_space sep \<and> newline \<notin> set trailing \<longrightarrow>
            extract_text (open_marker @ l # sep # trailing @ close_marker @ post) = Some l"
  proof
    assume a: "is_dot_or_space sep \<and> newline \<notin> set trailing"
    with assms have
      "match_with_content (open_marker @ l # sep # trailing @ close_marker @ post) = Some l"
      by (simp add: match_with_content_I)
    then have
      "re_search match_with_content (open_marker @ l # sep # trailing @ close_marker @ post)
         = Some l"
      by (rule re_search_head)
    then show "extract_text (open_marker @ l # sep # trailing @ close_marker @ post) = Some l"
      by (simp add: extract_text_def)
  qed
  have "match_bare (open_marker @ l # close_marker @ post) = Some l"
    using assms match_bare_iff by blast
  then have "re_search match_bare (open_marker @ l # close_marker @ post) = Some l"
    by (rule re_search_head)
  then have 2: "extract_text (open_marker @ l # close_marker @ post)
            = (case re_search match_with_content post of Some l' \<Rightarrow> Some l' | None \<Rightarrow> Some l)"
    unfolding extract_text_def with_content_skips_bare_pair [OF assms]
    by (simp split: option.splits)
  have 3: "match_with_content t = Some l
            \<and> (\<forall>i<length pre. match_with_content (drop i (pre @ t)) = None)
            \<longrightarrow> extract_text (pre @ t) = Some l"
  proof
    assume a: "match_with_content t = Some l
            \<and> (\<forall>i<length pre. match_with_content (drop i (pre @ t)) = None)"
    then have "re_search match_with_content (pre @ t) = Some l"
      using re_search_leftmost [of match_with_content t l pre] by blast
    then show "extract_text (pre @ t) = Some l"
      by (simp add: extract_text_def)
  qed
  have 4: "match_bare t = Some l
            \<and> (\<forall>i<length pre. match_bare (drop i (pre @ t)) = None)
            \<and> re_search match_with_content (pre @ t) = None
            \<longrightarrow> extract_text (pre @ t) = Some l"
  proof
    assume a: "match_bare t = Some l
            \<and> (\<forall>i<length pre. match_bare (drop i (pre @ t)) = None)
            \<and> re_search match_with_content (pre @ t) = None"
    then have "re_search match_bare (pre @ t) = Some l"
      using re_search_leftmost [of match_bare t l pre] by blast
    with a show "extract_text (pre @ t) = Some l"
      by (simp add: extract_text_def)
  qed
  show ?thesis by (rule conjI [OF 1 conjI [OF 2 conjI [OF 3 4]]])
qed

theorem extract_forms_and_priority_witness:
  "is_label CHR ''C''
   \<and> extract_text ''<answer>C. 27</answer>'' = Some CHR ''C''
   \<and> extract_text ''<answer>C</answer> or <answer>D 9</answer>'' = Some CHR ''D''"
proof -
  have h: "is_label CHR ''C''" by (simp add: is_label_def)
  have d: "is_dot_or_space CHR ''.'' \<and> newline \<notin> set '' 27''"
    by (simp add: is_dot_or_space_def newline_def)
  note t = extract_forms_and_priority [where l = "CHR ''C''" and sep = "CHR ''.''"
      and trailing = "'' 27''" and post = "[]", OF h]
  note u = extract_forms_and_priority [where l = "CHR ''C''"
      and post = "'' or <answer>D 9</answer>''", OF h]
  have 1: "extract_text ''<answer>C. 27</answer>'' = Some CHR ''C''"
    using conjunct1 [OF t] d by (simp add: open_marker_def close_marker_def)
  have s: "re_search match_with_content '' or <answer>D 9</answer>'' = Some CHR ''D''"
    by (simp add: extract_eval)
  have 2: "extract_text ''<answer>C</answer> or <answer>D 9</answer>'' = Some CHR ''D''"
    using conjunct1 [OF conjunct2 [OF u]] s by (simp add: open_marker_def close_marker_def)
  show ?thesis by (rule conjI [OF h conjI [OF 1 2]])
qed

text \<open>
  Claim C3 as stated fails: of two marker pairs the later one is returned when only it
  has trailing text, and trailing text that starts with a comma is not accepted.
\<close>

theorem extract_first_match_counterexample:
  "extract_answer_from_json
     (JObj [(''answer'', JStr ''<answer>A</answer> <answer>B. x</answer>'')])
     = Inr (Some CHR ''B'')
   \<and> extract_answer_from_json (JObj [(''answer'', JStr ''<answer>C, because</answer>'')])
     = Inr None"
  by (simp add: extract_eval)

section \<open>Properties of the gap detection\<close>

lemma scan_file_processed_ids:
  "processed_ids (scan_file st f)
     = processed_ids st \<union> {i. 1 \<le> i \<and> i \<le> 251 \<and> file_number f = Some i \<and> has_label f}"
  unfolding scan_file_def file_number_def has_label_def
  by (auto simp: Let_def split: option.splits file_content.splits sum.splits)

lemma scan_file_printed: "printed (scan_file st f) = printed st @ file_lines f"
  unfolding scan_file_def file_lines_def no_files_def
  by (auto simp: Let_def split: option.splits file_content.splits sum.splits)

lemma scan_file_results: "results (scan_file st f) = results st @ file_rows f"
  unfolding scan_file_def file_rows_def no_files_def
  by (auto simp: Let_def split: option.splits file_content.splits sum.splits)

lemma scan_processed_ids:
  "processed_ids (foldl scan_file st fs)
     = processed_ids st
       \<union> {i. 1 \<le> i \<and> i \<le> 251 \<and> (\<exists>f\<in>set fs. file_number f = Some i \<and> has_label f)}"
proof (induction fs arbitrary: st)
  case Nil
  then show ?case by simp
next
  case (Cons f fs)
  show ?case
    unfolding foldl_Cons Cons.IH scan_file_processed_ids by auto
qed

lemma scan_printed:
  "printed (foldl scan_file st fs) = printed st @ concat (map file_lines fs)"
  by (induction fs arbitrary: st) (simp_all add: scan_file_printed)

lemma scan_results:
  "results (foldl scan_file st fs) = results st @ concat (map file_rows fs)"
  by (induction fs arbitrary: st) (simp_all add: scan_file_results)

lemma missing_ids_eq:
  "missing_ids (process_files fs)
     = {1..251} - {i. \<exists>f\<in>set fs. file_number f = Some i \<and> has_label f}"
  unfolding process_files_def by (auto simp: Let_def scan_processed_ids)

lemma success_ids_eq:
  "success_ids (process_files fs)
     = {i. 1 \<le> i \<and> i \<le> 251 \<and> (\<exists>f\<in>set fs. file_number f = Some i \<and> has_label f)}"
  unfolding process_files_def by (simp add: Let_def scan_processed_ids)

lemma csv_rows_eq: "csv_rows (process_files fs) = sort_key fst (concat (map file_rows fs))"
  unfolding process_files_def by (simp add: Let_def scan_results)

lemma printed_lines_eq:
  "printed_lines (process_files fs)
     = concat (map file_lines fs)
       @ (if missing_ids (process_files fs) \<noteq> {}
          then [MissingAnswers (sorted_list_of_set (missing_ids (process_files fs)))] else [])
       @ [ResultsWritten, ProcessedFiles (length (csv_rows (process_files fs)))]"
  unfolding process_files_def by (simp add: Let_def scan_printed)

text \<open>
  Claim C6. The missing set is exactly the set of the ids from 1 to 251 for which no
  file yields a label: an id with no file, an id whose files fail to load or to give a
  label (no label in the text, or an exception of the extraction), are missing, and an
  id of a file with a label is not.
\<close>

theorem missing_ids_exact:
  "missing_ids (process_files fs)
     = {i. 1 \<le> i \<and> i \<le> 251 \<and> (\<forall>f\<in>set fs. file_number f = Some i \<longrightarrow> \<not> has_label f)}
   \<and> (\<forall>i. 1 \<le> i \<and> i \<le> 251 \<and> (\<forall>f\<in>set fs. file_number f \<noteq> Some i)
         \<longrightarrow> i \<in> missing_ids (process_files fs))
   \<and> (\<forall>i. 1 \<le> i \<and> i \<le> 251
           \<and> (\<forall>f\<in>set fs. file_number f = Some i \<longrightarrow>
                 snd f = ReadFails
                 \<or> (\<exists>j. snd f = Loaded j \<and> extract_answer_from_json j = Inr None)
                 \<or> (\<exists>j e. snd f = Loaded j \<and> extract_answer_from_json j = Inl e))
         \<longrightarrow> i \<in> missing_ids (process_files fs))
   \<and> (\<forall>f\<in>set fs. \<forall>i l j. file_number f = Some i \<and> snd f = Loaded j
           \<and> extract_answer_from_json j = Inr (Some l)
         \<longrightarrow> i \<notin> missing_ids (process_files fs))"
proof -
  have 1: "missing_ids (process_files fs)
     = {i. 1 \<le> i \<and> i \<le> 251 \<and> (\<forall>f\<in>set fs. file_number f = Some i \<longrightarrow> \<not> has_label f)}"
    unfolding missing_ids_eq by auto
  have 2: "\<forall>i. 1 \<le> i \<and> i \<le> 251 \<and> (\<forall>f\<in>set fs. file_number f \<noteq> Some i)
         \<longrightarrow> i \<in> missing_ids (process_files fs)"
    unfolding 1 by simp
  have 3: "\<forall>i. 1 \<le> i \<and> i \<le> 251
           \<and> (\<forall>f\<in>set fs. file_number f = Some i \<longrightarrow>
                 snd f = ReadFails
                 \<or> (\<exists>j. snd f = Loaded j \<and> extract_answer_from_json j = Inr None)
                 \<or> (\<exists>j e. snd f = Loaded j \<and> extract_answer_from_json j = Inl e))
         \<longrightarrow> i \<in> missing_ids (process_files fs)"
    unfolding 1 has_label_def by fastforce
  have 4: "\<forall>f\<in>set fs. \<forall>i l j. file_number f = Some i \<and> snd f = Loaded j
           \<and> extract_answer_from_json j = Inr (Some l)
         \<longrightarrow> i \<notin> missing_ids (process_files fs)"
    unfolding 1 has_label_def by fastforce
  show ?thesis by (rule conjI [OF 1 conjI [OF 2 conjI [OF 3 4]]])
qed

lemmas int_eval = py_int_def strip_space_def is_int_space_def is_digit_def digit_val_def
  file_id_of_def file_number_def

theorem missing_ids_exact_witness:
  "(3::int) \<notin> missing_ids (process_files
       [(''00003_result.json'', Loaded (JObj [(''answer'', JStr ''<answer>B</answer>'')])),
        (''00004_result.json'', ReadFails),
        (''00005_result.json'', Loaded (JObj [(''error'', JStr ''rate limit'')]))])
   \<and> (4::int) \<in> missing_ids (process_files
       [(''00003_result.json'', Loaded (JObj [(''answer'', JStr ''<answer>B</answer>'')])),
        (''00004_result.json'', ReadFails),
        (''00005_result.json'', Loaded (JObj [(''error'', JStr ''rate limit'')]))])
   \<and> (5::int) \<in> missing_ids (process_files
       [(''00003_result.json'', Loaded (JObj [(''answer'', JStr ''<answer>B</answer>'')])),
        (''00004_result.json'', ReadFails),
        (''00005_result.json'', Loaded (JObj [(''error'', JStr ''rate limit'')]))])
   \<and> (6::int) \<in> missing_ids (process_files
       [(''00003_result.json'', Loaded (JObj [(''answer'', JStr ''<answer>B</answer>'')])),
        (''00004_result.json'', ReadFails),
        (''00005_result.json'', Loaded (JObj [(''error'', JStr ''rate limit'')]))])"
proof -
  have n: "file_number (''00003_result.json'', a) = Some 3"
          "file_number (''00004_result.json'', b) = Some 4"
          "file_number (''00005_result.json'', c) = Some 5" for a b c
    by (simp_all add: int_eval)
  have l: "has_label (''00003_result.json'',
                      Loaded (JObj [(''answer'', JStr ''<answer>B</answer>'')]))"
          "\<not> has_label (''00004_result.json'', ReadFails)"
          "\<not> has_label (''00005_result.json'', Loaded (JObj [(''error'', JStr ''rate limit'')]))"
    by (simp_all add: has_label_def extract_eval)
  show ?thesis
    unfolding conjunct1 [OF missing_ids_exact] using n l by simp
qed

lemma malformed_file:
  assumes "file_number f = None \<or> (\<exists>i. file_number f = Some i \<and> (i < 1 \<or> 251 < i))"
  shows "file_rows f = []"
    and "\<not> (\<exists>i. 1 \<le> i \<and> i \<le> 251 \<and> file_number f = Some i \<and> has_label f)"
    and "file_lines f = (if file_number f = None then [InvalidIdFormat (fst f)] else [])"
  using assms
  unfolding file_rows_def file_lines_def scan_file_def no_files_def file_number_def
  by (auto simp: Let_def)

text \<open>
  Claim C7, as amended. A file whose identifier is not a number is reported by a
  warning; a file whose identifier is a number outside 1 to 251 is passed over without
  any line. In both cases the rows, the success set and the missing set are those of
  the scan without that file, the scan goes on over the other files, and no id outside
  the range is in the success set or in the missing set.
\<close>

theorem malformed_ids_skipped:
  assumes "file_number f = None \<or> (\<exists>i. file_number f = Some i \<and> (i < 1 \<or> 251 < i))"
  shows "csv_rows (process_files (pre @ f # post)) = csv_rows (process_files (pre @ post))
       \<and> success_ids (process_files (pre @ f # post)) = success_ids (process_files (pre @ post))
       \<and> missing_ids (process_files (pre @ f # post)) = missing_ids (process_files (pre @ post))
       \<and> (file_number f = None \<longrightarrow>
            InvalidIdFormat (fst f) \<in> set (printed_lines (process_files (pre @ f # post))))
       \<and> (file_number f \<noteq> None \<longrightarrow>
            printed_lines (process_files (pre @ f # post))
              = printed_lines (process_files (pre @ post)))
       \<and> (\<forall>i. i < 1 \<or> 251 < i \<longrightarrow>
            i \<notin> success_ids (process_files (pre @ f # post))
            \<and> i \<notin> missing_ids (process_files (pre @ f # post)))"
proof -
  note m = malformed_file [OF assms]
  have 1: "csv_rows (process_files (pre @ f # post)) = csv_rows (process_files (pre @ post))"
    by (simp add: csv_rows_eq m(1))
  have s: "{i. 1 \<le> i \<and> i \<le> 251 \<and>
              (\<exists>g\<in>set (pre @ f # post). file_number g = Some i \<and> has_label g)}
         = {i. 1 \<le> i \<and> i \<le> 251 \<and>
              (\<exists>g\<in>set (pre @ post). file_number g = Some i \<and> has_label g)}"
    using m(2) by auto
  have 2: "success_ids (process_files (pre @ f # post))
             = success_ids (process_files (pre @ post))"
    unfolding success_ids_eq s ..
  have me: "missing_ids (process_files fs) = {1..251} - success_ids (process_files fs)" for fs
    unfolding missing_ids_eq success_ids_eq by auto
  have 3: "missing_ids (process_files (pre @ f # post))
             = missing_ids (process_files (pre @ post))"
    unfolding me 2 ..
  have 4: "file_number f = None \<longrightarrow>
            InvalidIdFormat (fst f) \<in> set (printed_lines (process_files (pre @ f # post)))"
    by (simp add: printed_lines_eq m(3))
  have 5: "file_number f \<noteq> None \<longrightarrow>
            printed_lines (process_files (pre @ f # post))
              = printed_lines (process_files (pre @ post))"
  proof
    assume "file_number f \<noteq> None"
    then have "concat (map file_lines (pre @ f # post)) = concat (map file_lines (pre @ post))"
      by (simp add: m(3))
    then show "printed_lines (process_files (pre @ f # post))
              = printed_lines (process_files (pre @ post))"
      unfolding printed_lines_eq 1 3 by simp
  qed
  have 6: "\<forall>i. i < 1 \<or> 251 < i \<longrightarrow>
            i \<notin> success_ids (process_files (pre @ f # post))
            \<and> i \<notin> missing_ids (process_files (pre @ f # post))"
    unfolding me success_ids_eq by auto
  show ?thesis by (rule conjI [OF 1 conjI [OF 2 conjI [OF 3 conjI [OF 4 conjI [OF 5 6]]]]])
qed

theorem malformed_ids_skipped_witness:
  "file_number (''notes_result.json'', ReadFails) = None
   \<and> missing_ids (process_files
        [(''00001_result.json'', Loaded (JObj [(''answer'', JStr ''<answer>A</answer>'')])),
         (''notes_result.json'', ReadFails)])
     = missing_ids (process_files
        [(''00001_result.json'', Loaded (JObj [(''answer'', JStr ''<answer>A</answer>'')]))])
   \<and> InvalidIdFormat ''notes_result.json''
       \<in> set (printed_lines (process_files
        [(''00001_result.json'', Loaded (JObj [(''answer'', JStr ''<answer>A</answer>'')])),
         (''notes_result.json'', ReadFails)]))"
proof -
  have h: "file_number (''notes_result.json'', ReadFails) = None"
    by (simp add: int_eval)
  then have h': "file_number (''notes_result.json'', ReadFails) = None
      \<or> (\<exists>i. file_number (''notes_result.json'', ReadFails) = Some i \<and> (i < 1 \<or> 251 < i))"
    by (rule disjI1)
  note t = malformed_ids_skipped [OF h',
      of "[(''00001_result.json'', Loaded (JObj [(''answer'', JStr ''<answer>A</answer>'')]))]"
         "[]"]
  have 3: "missing_ids (process_files
        [(''00001_result.json'', Loaded (JObj [(''answer'', JStr ''<answer>A</answer>'')])),
         (''notes_result.json'', ReadFails)])
     = missing_ids (process_files
        [(''00001_result.json'', Loaded (JObj [(''answer'', JStr ''<answer>A</answer>'')]))])"
    using conjunct1 [OF conjunct2 [OF conjunct2 [OF t]]] by simp
  have 4: "InvalidIdFormat ''notes_result.json''
       \<in> set (printed_lines (process_files
        [(''00001_result.json'', Loaded (JObj [(''answer'', JStr ''<answer>A</answer>'')])),
         (''notes_result.json'', ReadFails)]))"
    using conjunct1 [OF conjunct2 [OF conjunct2 [OF conjunct2 [OF t]]]] h by simp
  show ?thesis by (rule conjI [OF h conjI [OF 3 4]])
qed

text \<open>
  Claim C7 as stated fails: for a file with the identifier 00300 no warning is printed,
  only the report of the missing ids and the two closing lines.
\<close>

theorem out_of_range_id_unreported:
  "printed_lines (process_files
      [(''00300_result.json'', Loaded (JObj [(''answer'', JStr ''<answer>A</answer>'')]))])
     = [MissingAnswers (sorted_list_of_set {1..251}), ResultsWritten, ProcessedFiles 0]"
proof -
  have n: "file_number (''00300_result.json'', c) = Some 300" for c
    by (simp add: int_eval)
  have l: "file_lines (''00300_result.json'', c) = []" for c
    using malformed_file(3) [of "(''00300_result.json'', c)"] n by simp
  have r: "file_rows (''00300_result.json'', c) = []" for c
    using malformed_file(1) [of "(''00300_result.json'', c)"] n by simp
  have m: "missing_ids (process_files [(''00300_result.json'', c)]) = {1..251}" for c
    unfolding missing_ids_eq using n by auto
  have ne: "{1..251::int} \<noteq> {}" by simp
  show ?thesis
    unfolding printed_lines_eq m csv_rows_eq using ne by (simp add: l r)
qed

section \<open>Properties of the reasoning stages\<close>

lemma foldl_append_blocks:
  "foldl (\<lambda>acc x. acc @ g x) acc xs = acc @ concat (map g xs)"
  by (induction xs arbitrary: acc) simp_all

lemma str_opt_case: "str_opt v = (case v of None \<Rightarrow> ''None'' | Some text \<Rightarrow> text)"
  by (simp add: str_opt_def)

text \<open>
  Claim C4, as amended. The prompt of the Consensus Reasoner is built from all the
  stored attempts of the task, without a filter and in their order: every attempt adds
  one block headed by its attempt number, and the block of a successful attempt carries
  its raw text as it is (the block of an attempt without raw text carries the word None
  in its place).
\<close>

theorem prompt_from_all_attempts:
  "formatted_attempts atts
     = concat (map (\<lambda>a. ''\<newline>Attempt '' @ str_int (attempt_number a) @ '':\<newline>''
                          @ (case answer a of None \<Rightarrow> ''None'' | Some text \<Rightarrow> text)
                          @ ''\<newline>'') atts)
   \<and> fst (reason_over_attempts client atts question vid)
     = (vid, ''Here is the multiple choice question that was posed:\<newline>'' @ question @
             ''\<newline>\<newline>I have received three different reasoning attempts from a vision model analyzing the same video frames:\<newline>'' @
             formatted_attempts atts @ attempts_prompt_tail)"
proof -
  have 1: "formatted_attempts atts
     = concat (map (\<lambda>a. ''\<newline>Attempt '' @ str_int (attempt_number a) @ '':\<newline>''
                          @ (case answer a of None \<Rightarrow> ''None'' | Some text \<Rightarrow> text)
                          @ ''\<newline>'') atts)"
    unfolding formatted_attempts_def str_opt_case
    using foldl_append_blocks [of "\<lambda>a. ''\<newline>Attempt '' @ str_int (attempt_number a)
        @ '':\<newline>'' @ (case answer a of None \<Rightarrow> ''None'' | Some text \<Rightarrow> text)
        @ ''\<newline>''" "[]" atts]
    by simp
  have 2: "fst (reason_over_attempts client atts question vid)
     = (vid, ''Here is the multiple choice question that was posed:\<newline>'' @ question @
             ''\<newline>\<newline>I have received three different reasoning attempts from a vision model analyzing the same video frames:\<newline>'' @
             formatted_attempts atts @ attempts_prompt_tail)"
    by (simp add: reason_over_attempts_def attempts_prompt_def Let_def)
  show ?thesis by (rule conjI [OF 1 2])
qed

lemmas str_eval = formatted_attempts_def str_int_def str_opt_def str_nat.simps digit_char_def

text \<open>
  Claim C4 as stated fails: the failed second attempt adds its heading and the word
  None to the prompt.
\<close>

theorem failed_attempt_in_prompt:
  "formatted_attempts
     [\<lparr>attempt_number = 1, answer = Some ''<answer>B</answer>'',
       finish_reason = Some ''stop'', error = None\<rparr>,
      \<lparr>attempt_number = 2, answer = None, finish_reason = None,
       error = Some ''Request timed out.''\<rparr>]
   = ''\<newline>Attempt 1:\<newline><answer>B</answer>\<newline>\<newline>Attempt 2:\<newline>None\<newline>''"
  by (simp add: str_eval)




















section \<open>Properties of the attempt sampling\<close>









section \<open>Properties of the backfill\<close>

lemma gap_process_question_events:
  "\<forall>ev\<in>set (snd (gap_process_question env ids vid q)). event_id ev = vid"
  unfolding gap_process_question_def
  by (auto split: sum.splits api_outcome.splits)

lemma gap_process_question_filtered:
  "filtered_out ids vid \<Longrightarrow> gap_process_question env ids vid q = ([], [])"
  by (simp add: gap_process_question_def)

lemma fill_gaps_main_events:
  "\<forall>ev\<in>set (fill_gaps_main envs ids n rows).
     event_id ev \<in> fst ` set rows \<and> \<not> filtered_out ids (event_id ev)"
proof (induction rows arbitrary: n)
  case Nil
  then show ?case by simp
next
  case (Cons row rows)
  show ?case
  proof (cases "filtered_out ids (fst row)")
    case True
    then show ?thesis using Cons.IH [of "Suc n"] by simp
  next
    case False
    obtain result events where
      g: "gap_process_question (envs n) ids (fst row) (snd row) = (result, events)"
      by (cases "gap_process_question (envs n) ids (fst row) (snd row)")
    have e: "\<forall>ev\<in>set events. event_id ev = fst row"
      using gap_process_question_events [of "envs n" ids "fst row" "snd row"] g by simp
    show ?thesis
      using False e Cons.IH [of "Suc n"] by (auto simp: g)
  qed
qed

text \<open>
  Claim C8. In a backfill run restricted to an allow-list, every event of the run (the
  loading of evidence, the remote call, the writing of a Result) belongs to a video id of
  the allow-list and of the rows; for an id outside the list the processor returns the
  empty dictionary before any evidence is loaded or any call is made.
\<close>

theorem backfill_only_allowed:
  "(\<forall>ev\<in>set (fill_gaps_main envs (Some allowed) n rows).
      event_id ev \<in> allowed \<and> event_id ev \<in> fst ` set rows)
   \<and> (vid \<notin> allowed \<longrightarrow> gap_process_question env (Some allowed) vid q = ([], []))"
proof -
  have 1: "\<forall>ev\<in>set (fill_gaps_main envs (Some allowed) n rows).
      event_id ev \<in> allowed \<and> event_id ev \<in> fst ` set rows"
    using fill_gaps_main_events [of envs "Some allowed" n rows]
    by (simp add: filtered_out_def)
  have 2: "vid \<notin> allowed \<longrightarrow> gap_process_question env (Some allowed) vid q = ([], [])"
    by (simp add: gap_process_question_filtered filtered_out_def)
  show ?thesis by (rule conjI [OF 1 2])
qed

theorem backfill_only_allowed_witness:
  "''00004'' \<notin> {''00003'', ''00006''}
   \<and> fill_gaps_main
        (\<lambda>n. \<lparr>frame_paths = (\<lambda>v. [''frame_0.jpg'']), encode_image = (\<lambda>p. Inr ''QUJD''),
               chat_completion = (\<lambda>q urls. Completion ''<answer>B</answer>'' ''stop'')\<rparr>)
        (Some {''00003'', ''00006''}) 0
        [(''00003'', ''Q3''), (''00004'', ''Q4''), (''00006'', ''Q6'')]
     = [EvidenceLoaded ''00003'', RemoteCall ''00003'',
        ResultWritten ''00003'' [(''answer'', ''<answer>B</answer>''), (''finish_reason'', ''stop'')],
        EvidenceLoaded ''00006'', RemoteCall ''00006'',
        ResultWritten ''00006'' [(''answer'', ''<answer>B</answer>''), (''finish_reason'', ''stop'')]]
   \<and> RemoteCall ''00004'' \<notin> set (fill_gaps_main
        (\<lambda>n. \<lparr>frame_paths = (\<lambda>v. [''frame_0.jpg'']), encode_image = (\<lambda>p. Inr ''QUJD''),
               chat_completion = (\<lambda>q urls. Completion ''<answer>B</answer>'' ''stop'')\<rparr>)
        (Some {''00003'', ''00006''}) 0
        [(''00003'', ''Q3''), (''00004'', ''Q4''), (''00006'', ''Q6'')])"
proof -
  let ?envs = "\<lambda>n::nat. \<lparr>frame_paths = (\<lambda>v::string. [''frame_0.jpg'']),
               encode_image = (\<lambda>p::string. Inr ''QUJD'' :: string + string),
               chat_completion = (\<lambda>(q::string) (urls::string list).
                  Completion ''<answer>B</answer>'' ''stop'')\<rparr>"
  let ?run = "fill_gaps_main ?envs (Some {''00003'', ''00006''}) 0
        [(''00003'', ''Q3''), (''00004'', ''Q4''), (''00006'', ''Q6'')]"
  have h: "''00004'' \<notin> {''00003'', ''00006''}" by simp
  have v: "?run = [EvidenceLoaded ''00003'', RemoteCall ''00003'',
        ResultWritten ''00003'' [(''answer'', ''<answer>B</answer>''), (''finish_reason'', ''stop'')],
        EvidenceLoaded ''00006'', RemoteCall ''00006'',
        ResultWritten ''00006'' [(''answer'', ''<answer>B</answer>''), (''finish_reason'', ''stop'')]]"
    by (simp add: gap_process_question_def filtered_out_def)
  note t = conjunct1 [OF backfill_only_allowed [of ?envs "{''00003'', ''00006''}" 0
      "[(''00003'', ''Q3''), (''00004'', ''Q4''), (''00006'', ''Q6'')]"]]
  have r: "RemoteCall ''00004'' \<notin> set ?run"
  proof
    assume "RemoteCall ''00004'' \<in> set ?run"
    from bspec [OF t this] have "''00004'' \<in> {''00003'', ''00006''}" by simp
    with h show False by simp
  qed
  show ?thesis by (rule conjI [OF h conjI [OF v r]])
qed

section \<open>Properties of the bounded dispatcher\<close>

lemma length_filter_update:
  "i < length xs \<Longrightarrow>
   length (filter P (xs[i := y])) + (if P (xs ! i) then 1 else 0)
     = length (filter P xs) + (if P y then 1 else 0)"
proof (induction xs arbitrary: i)
  case Nil
  then show ?case by simp
next
  case (Cons x xs)
  show ?case
  proof (cases i)
    case 0
    then show ?thesis by simp
  next
    case (Suc j)
    with Cons.prems have "j < length xs" by simp
    from Cons.IH [OF this] show ?thesis using Suc by simp
  qed
qed

lemma in_flight_le_holders: "in_flight s \<le> holders s"
proof -
  have "length (filter (\<lambda>p. p = InFlight) xs)
          \<le> length (filter (\<lambda>p. p = Holding \<or> p = InFlight) xs)" for xs :: "phase list"
    by (induction xs) simp_all
  then show ?thesis by (simp add: in_flight_def holders_def)
qed

lemma step_invariant:
  assumes "step s s'"
  shows "sem_value s' + holders s' = sem_value s + holders s"
    and "length (phases s') = length (phases s)"
  using assms
proof (induction rule: step.induct)
  case (acquire i s)
  from length_filter_update [OF acquire(1), of "\<lambda>p. p = Holding \<or> p = InFlight" Holding]
  show "sem_value (s\<lparr>sem_value := sem_value s - 1, phases := (phases s)[i := Holding]\<rparr>)
          + holders (s\<lparr>sem_value := sem_value s - 1, phases := (phases s)[i := Holding]\<rparr>)
        = sem_value s + holders s"
    using acquire(2,3) by (simp add: holders_def)
  show "length (phases (s\<lparr>sem_value := sem_value s - 1, phases := (phases s)[i := Holding]\<rparr>))
        = length (phases s)"
    by simp
next
  case (send i s)
  from length_filter_update [OF send(1), of "\<lambda>p. p = Holding \<or> p = InFlight" InFlight]
  show "sem_value (s\<lparr>phases := (phases s)[i := InFlight]\<rparr>)
          + holders (s\<lparr>phases := (phases s)[i := InFlight]\<rparr>)
        = sem_value s + holders s"
    using send(2) by (simp add: holders_def)
  show "length (phases (s\<lparr>phases := (phases s)[i := InFlight]\<rparr>)) = length (phases s)"
    by simp
next
  case (abandon i s)
  from length_filter_update [OF abandon(1), of "\<lambda>p. p = Holding \<or> p = InFlight" Finished]
  show "sem_value (s\<lparr>sem_value := sem_value s + 1, phases := (phases s)[i := Finished]\<rparr>)
          + holders (s\<lparr>sem_value := sem_value s + 1, phases := (phases s)[i := Finished]\<rparr>)
        = sem_value s + holders s"
    using abandon(2) by (simp add: holders_def)
  show "length (phases (s\<lparr>sem_value := sem_value s + 1, phases := (phases s)[i := Finished]\<rparr>))
        = length (phases s)"
    by simp
next
  case (complete i s)
  from length_filter_update [OF complete(1), of "\<lambda>p. p = Holding \<or> p = InFlight" Finished]
  show "sem_value (s\<lparr>sem_value := sem_value s + 1, phases := (phases s)[i := Finished]\<rparr>)
          + holders (s\<lparr>sem_value := sem_value s + 1, phases := (phases s)[i := Finished]\<rparr>)
        = sem_value s + holders s"
    using complete(2) by (simp add: holders_def)
  show "length (phases (s\<lparr>sem_value := sem_value s + 1, phases := (phases s)[i := Finished]\<rparr>))
        = length (phases s)"
    by simp
qed

lemma reachable_invariant:
  assumes "reachable k n s"
  shows "sem_value s + holders s = k \<and> length (phases s) = n"
  using assms
proof (induction rule: reachable.induct)
  case (start k n)
  have "filter (\<lambda>p. p = Holding \<or> p = InFlight) (replicate n Waiting) = []"
    by (induction n) simp_all
  then show ?case by (simp add: init_dispatcher_def holders_def)
next
  case (next_step k n s s')
  then show ?case using step_invariant [of s s'] by simp
qed

lemma waiting_stays:
  assumes "step s s'" and "i < length (phases s)" and "phases s ! i = Waiting"
  shows "phases s' ! i = Waiting \<or> (phases s' ! i = Holding \<and> 0 < sem_value s)"
  using assms
proof (induction rule: step.induct)
  case (acquire j s)
  then show ?case by (cases "i = j") simp_all
next
  case (send j s)
  then show ?case by (cases "i = j") simp_all
next
  case (abandon j s)
  then show ?case by (cases "i = j") simp_all
next
  case (complete j s)
  then show ?case by (cases "i = j") simp_all
qed

lemma progress:
  assumes inv: "sem_value s + holders s = k" and k: "0 < k"
    and i: "i < length (phases s)" "phases s ! i \<noteq> Finished"
  shows "\<exists>s'. step s s'"
proof -
  have busy: "\<exists>s'. step s s'" if "j < length (phases s)"
    "phases s ! j = Holding \<or> phases s ! j = InFlight" for j
    using that step.send [of j s] step.complete [of j s] by blast
  show ?thesis
  proof (cases "phases s ! i")
    case Waiting
    show ?thesis
    proof (cases "0 < sem_value s")
      case True
      with i(1) Waiting show ?thesis using step.acquire [of i s] by blast
    next
      case False
      with inv k have "0 < holders s" by simp
      then have "filter (\<lambda>p. p = Holding \<or> p = InFlight) (phases s) \<noteq> []"
        by (simp add: holders_def)
      then obtain p where "p \<in> set (phases s)" "p = Holding \<or> p = InFlight"
        by (auto simp: filter_empty_conv)
      then obtain j where "j < length (phases s)" "phases s ! j = Holding \<or> phases s ! j = InFlight"
        by (auto simp: in_set_conv_nth)
      then show ?thesis by (rule busy)
    qed
  next
    case Holding
    with i(1) show ?thesis using busy by blast
  next
    case InFlight
    with i(1) show ?thesis using busy by blast
  next
    case Finished
    with i(2) show ?thesis by simp
  qed
qed

text \<open>
  Claim C9. In every state that an execution of the tasks under a semaphore of value
  \<open>k\<close> reaches, at most \<open>k\<close> requests are in flight. No task is dropped: the number of
  tasks stays the same, a waiting task stays waiting until it enters the block, which
  needs a free slot, and for \<open>k\<close> of at least 1 some task can take a step as long as a
  task is unfinished.
\<close>

theorem in_flight_bounded:
  assumes "reachable k n s"
  shows "in_flight s \<le> k
       \<and> length (phases s) = n
       \<and> (\<forall>s' i. step s s' \<and> i < n \<and> phases s ! i = Waiting \<longrightarrow>
             phases s' ! i = Waiting \<or> (phases s' ! i = Holding \<and> 0 < sem_value s))
       \<and> (1 \<le> k \<and> (\<exists>i<n. phases s ! i \<noteq> Finished) \<longrightarrow> (\<exists>s'. step s s'))"
proof -
  note inv = reachable_invariant [OF assms]
  have 1: "in_flight s \<le> k"
    using inv in_flight_le_holders [of s] by simp
  have 2: "length (phases s) = n" using inv by simp
  have 3: "\<forall>s' i. step s s' \<and> i < n \<and> phases s ! i = Waiting \<longrightarrow>
             phases s' ! i = Waiting \<or> (phases s' ! i = Holding \<and> 0 < sem_value s)"
    using waiting_stays [of s] 2 by blast
  have 4: "1 \<le> k \<and> (\<exists>i<n. phases s ! i \<noteq> Finished) \<longrightarrow> (\<exists>s'. step s s')"
  proof
    assume a: "1 \<le> k \<and> (\<exists>i<n. phases s ! i \<noteq> Finished)"
    then obtain i where i: "i < length (phases s)" "phases s ! i \<noteq> Finished"
      using 2 by blast
    from a have k: "0 < k" by simp
    show "\<exists>s'. step s s'" by (rule progress [OF conjunct1 [OF inv] k i])
  qed
  show ?thesis by (rule conjI [OF 1 conjI [OF 2 conjI [OF 3 4]]])
qed

theorem in_flight_bounded_witness:
  "reachable 1 2 \<lparr>sem_value = 0, phases = [InFlight, Waiting]\<rparr>
   \<and> in_flight \<lparr>sem_value = 0, phases = [InFlight, Waiting]\<rparr> \<le> 1
   \<and> (\<exists>s'. step \<lparr>sem_value = 0, phases = [InFlight, Waiting]\<rparr> s')"
proof -
  have s0: "reachable 1 2 (init_dispatcher 1 2)" by (rule reachable.start)
  have e0: "init_dispatcher 1 2 = \<lparr>sem_value = 1, phases = [Waiting, Waiting]\<rparr>"
    by (simp add: init_dispatcher_def numeral_2_eq_2)
  have s1: "step \<lparr>sem_value = 1, phases = [Waiting, Waiting]\<rparr>
                 \<lparr>sem_value = 0, phases = [Holding, Waiting]\<rparr>"
    using step.acquire [of 0 "\<lparr>sem_value = 1, phases = [Waiting, Waiting]\<rparr>"] by simp
  have s2: "step \<lparr>sem_value = 0, phases = [Holding, Waiting]\<rparr>
                 \<lparr>sem_value = 0, phases = [InFlight, Waiting]\<rparr>"
    using step.send [of 0 "\<lparr>sem_value = 0, phases = [Holding, Waiting]\<rparr>"] by simp
  have r: "reachable 1 2 \<lparr>sem_value = 0, phases = [InFlight, Waiting]\<rparr>"
    using s0 s1 s2 unfolding e0 by (blast intro: reachable.next_step)
  note t = in_flight_bounded [OF r]
  have 1: "in_flight \<lparr>sem_value = 0, phases = [InFlight, Waiting]\<rparr> \<le> 1"
    by (rule conjunct1 [OF t])
  have p: "(1::nat) \<le> 1 \<and> (\<exists>i<2. phases \<lparr>sem_value = 0, phases = [InFlight, Waiting]\<rparr> ! i
                                  \<noteq> Finished)"
    by (simp add: exI [of _ 0])
  have 4: "\<exists>s'. step \<lparr>sem_value = 0, phases = [InFlight, Waiting]\<rparr> s'"
    by (rule mp [OF conjunct2 [OF conjunct2 [OF conjunct2 [OF t]]] p])
  show ?thesis by (rule conjI [OF r conjI [OF 1 4]])
qed

end
